theory Spec2Isabelle
  imports Main
begin

section \<open>Console Tic Tac Toe: a shallow embedding of tic_tac_toe.py\<close>

subsection \<open>Data model\<close>

text \<open>
  The dataclass \<open>GameState\<close> has two fields: \<open>board\<close>, a Python list of strings, and
  \<open>current_player\<close>, a string. Nothing in the class restricts either field, so a cell and
  the player are arbitrary strings here as well. The empty cell is the one-character
  string made of a blank.
\<close>

record GameState =
  board :: "string list"
  current_player :: string

definition empty_cell :: string where
  "empty_cell = '' ''"

text \<open>
  Exceptions that can leave the functions modelled below: a list read out of range, and
  \<open>input\<close> at the end of standard input.
\<close>

datatype py_error = IndexError | EOFError

text \<open>\<open>board[i]\<close> for a non-negative index: Python raises IndexError beyond the end.\<close>

definition cell :: "string list \<Rightarrow> nat \<Rightarrow> py_error + string" where
  "cell b i = (if i < length b then Inr (b ! i) else Inl IndexError)"

subsection \<open>GameState.switch_player\<close>

text \<open>
  \<^verbatim>\<open>self.current_player = "O" if self.current_player == "X" else "X"\<close>
\<close>

definition switch_player :: "GameState \<Rightarrow> GameState" where
  "switch_player g =
     g\<lparr>current_player := (if current_player g = ''X'' then ''O'' else ''X'')\<rparr>"

subsection \<open>WINNING\_COMBINATIONS and create\_game\<close>

definition WINNING_COMBINATIONS :: "(nat \<times> nat \<times> nat) list" where
  "WINNING_COMBINATIONS =
     [(0, 1, 2), (3, 4, 5), (6, 7, 8),
      (0, 3, 6), (1, 4, 7), (2, 5, 8),
      (0, 4, 8), (2, 4, 6)]"

text \<open>
  \<^verbatim>\<open>return GameState(board=[" "] * 9)\<close>; the field \<open>current_player\<close> takes its
  default \<open>"X"\<close>.
\<close>

definition create_game :: GameState where
  "create_game = \<lparr>board = replicate 9 empty_cell, current_player = ''X''\<rparr>"

subsection \<open>format\_board\<close>

text \<open>\<open>sep.join(xs)\<close> on a list of strings.\<close>

fun join :: "string \<Rightarrow> string list \<Rightarrow> string" where
  "join sep [] = []"
| "join sep [x] = x"
| "join sep (x # y # ys) = x @ sep @ join sep (y # ys)"

definition newline :: string where
  "newline = [CHR 0x0A]"

definition separator :: string where
  "separator = newline @ ''---------'' @ newline"

text \<open>
  \<^verbatim>\<open>rows = [" | ".join(board[i : i + 3]) for i in range(0, 9, 3)]\<close>.
  A slice never raises: it is cut at the end of the list, as \<open>take\<close> and \<open>drop\<close> are.
\<close>

definition board_rows :: "string list \<Rightarrow> string list" where
  "board_rows b = map (\<lambda>i. join '' | '' (take 3 (drop i b))) [0, 3, 6]"

definition format_board :: "string list \<Rightarrow> string" where
  "format_board b = join separator (board_rows b)"

subsection \<open>winner and is\_draw\<close>

text \<open>
  The test of one combination,
  \<^verbatim>\<open>board[a] != " " and board[a] == board[b] == board[c]\<close>,
  reads the cells from left to right and stops at the first comparison that fails, so a
  cell is read (and can raise) only when the tests before it passed.
\<close>

definition line_test :: "string list \<Rightarrow> nat \<times> nat \<times> nat \<Rightarrow> py_error + bool" where
  "line_test brd l =
     (case l of (a, b, c) \<Rightarrow>
        (case cell brd a of
           Inl e \<Rightarrow> Inl e
         | Inr x \<Rightarrow>
             if x = empty_cell then Inr False
             else (case cell brd b of
                     Inl e \<Rightarrow> Inl e
                   | Inr y \<Rightarrow>
                       if x \<noteq> y then Inr False
                       else (case cell brd c of
                               Inl e \<Rightarrow> Inl e
                             | Inr z \<Rightarrow> Inr (y = z)))))"

text \<open>The \<open>for\<close> loop of \<open>winner\<close> over the combinations still to be tried.\<close>

fun winner_scan :: "string list \<Rightarrow> (nat \<times> nat \<times> nat) list \<Rightarrow> py_error + string option" where
  "winner_scan brd [] = Inr None"
| "winner_scan brd (l # ls) =
     (case line_test brd l of
        Inl e \<Rightarrow> Inl e
      | Inr True \<Rightarrow> (case cell brd (fst l) of Inl e \<Rightarrow> Inl e | Inr x \<Rightarrow> Inr (Some x))
      | Inr False \<Rightarrow> winner_scan brd ls)"

definition winner :: "string list \<Rightarrow> py_error + string option" where
  "winner brd = winner_scan brd WINNING_COMBINATIONS"

text \<open>\<^verbatim>\<open>return all(square != " " for square in board)\<close>\<close>

definition is_draw :: "string list \<Rightarrow> bool" where
  "is_draw brd = list_all (\<lambda>square. square \<noteq> empty_cell) brd"

subsection \<open>take\_turn\<close>

text \<open>
  Standard input is a list with one entry for each line read. The entry is the outcome of
  \<^verbatim>\<open>int(input(...).strip())\<close> on that line: \<open>None\<close> when \<open>int\<close> raises
  ValueError, \<open>Some n\<close> when it returns \<open>n\<close>. Standard output is the list of texts
  written, one entry for each \<open>print\<close> (with its line end) or prompt of \<open>input\<close>.
\<close>

type_synonym stdin = "int option list"
type_synonym stdout = "string list"

definition print :: "string \<Rightarrow> string" where
  "print s = s @ newline"

definition prompt :: "GameState \<Rightarrow> string" where
  "prompt g = ''Player '' @ current_player g @ '', choose a square (1-9): ''"

definition msg_range :: string where
  "msg_range = ''Please enter a number from 1 to 9.''"

definition msg_taken :: string where
  "msg_taken = ''That square is already taken. Try again.''"

text \<open>
  The two ways one pass of the loop of \<open>take_turn\<close> ends in \<open>continue\<close>, under the
  names the specification gives them, and the way it ends in \<open>break\<close>.
\<close>

datatype rejection = InvalidPosition | CellOccupied

datatype attempt = Rejected rejection | Applied

text \<open>
  One pass of the loop from the range test on, for the 0-based \<open>position\<close>:
  \<^verbatim>\<open>
  if position not in range(9): raise ValueError     # caught: message, continue
  if game.board[position] != " ": message, continue
  game.board[position] = game.current_player; break
  \<close>
  The result holds how the pass ended, the game after it and what it printed.
\<close>

definition apply_move :: "GameState \<Rightarrow> int \<Rightarrow> py_error + (attempt \<times> GameState \<times> stdout)" where
  "apply_move g position =
     (if position < 0 \<or> 9 \<le> position
      then Inr (Rejected InvalidPosition, g, [print msg_range])
      else (case cell (board g) (nat position) of
              Inl e \<Rightarrow> Inl e
            | Inr c \<Rightarrow>
                if c \<noteq> empty_cell
                then Inr (Rejected CellOccupied, g, [print msg_taken])
                else Inr (Applied,
                          g\<lparr>board := (board g)[nat position := current_player g]\<rparr>,
                          [])))"

text \<open>
  One whole pass on one line of input: a line that is no integer raises ValueError in
  \<open>int\<close> and takes the same handler as a position out of range.
\<close>

definition take_turn_pass :: "GameState \<Rightarrow> int option \<Rightarrow> py_error + (attempt \<times> GameState \<times> stdout)" where
  "take_turn_pass g choice =
     (case choice of
        None \<Rightarrow> Inr (Rejected InvalidPosition, g, [print msg_range])
      | Some n \<Rightarrow> apply_move g (n - 1))"

text \<open>
  The \<open>while True\<close> loop: it ends at the first accepted move, and with EOFError when the
  input ends before one. It returns the game, the input left and the output written;
  what was written before an exception is not kept.
\<close>

fun take_turn :: "GameState \<Rightarrow> stdin \<Rightarrow> py_error + (GameState \<times> stdin \<times> stdout)" where
  "take_turn g [] = Inl EOFError"
| "take_turn g (choice # rest) =
     (case take_turn_pass g choice of
        Inl e \<Rightarrow> Inl e
      | Inr (Applied, g', out) \<Rightarrow> Inr (g', rest, prompt g # out)
      | Inr (Rejected r, g', out) \<Rightarrow>
          (case take_turn g' rest of
             Inl e \<Rightarrow> Inl e
           | Inr (g'', rest', out') \<Rightarrow> Inr (g'', rest', prompt g # out @ out')))"

subsection \<open>play\_game\<close>

text \<open>How a session ends: the two \<open>break\<close>s of the loop of \<open>play_game\<close>.\<close>

datatype outcome = Won string | Draw

definition msg_welcome :: string where
  "msg_welcome = ''Welcome to Tic Tac Toe! Player X goes first.'' @ newline"

definition msg_wins :: "string \<Rightarrow> string" where
  "msg_wins win = newline @ ''Player '' @ win @ '' wins! Congratulations!''"

definition msg_draw :: string where
  "msg_draw = newline @ ''It'' @ [CHR 0x27] @ ''s a draw!''"

text \<open>
  What one pass of the loop of \<open>play_game\<close> decides once the move is on the board: the
  session is won, or drawn, or goes on with the other player. The test \<open>if win:\<close> holds
  for a string that is not empty, and neither for None nor for the empty string; when it
  does not hold the pass goes on to \<open>is_draw\<close>.
\<close>

datatype verdict = Finished outcome | Continue GameState

definition after_move :: "GameState \<Rightarrow> py_error + (verdict \<times> stdout)" where
  "after_move g =
     (case winner (board g) of
        Inl e \<Rightarrow> Inl e
      | Inr None \<Rightarrow>
          if is_draw (board g)
          then Inr (Finished Draw, [print (format_board (board g)), print msg_draw])
          else Inr (Continue (switch_player g), [])
      | Inr (Some w) \<Rightarrow>
          if w \<noteq> []
          then Inr (Finished (Won w), [print (format_board (board g)), print (msg_wins w)])
          else if is_draw (board g)
          then Inr (Finished Draw, [print (format_board (board g)), print msg_draw])
          else Inr (Continue (switch_player g), []))"

function play_loop :: "GameState \<Rightarrow> stdin \<Rightarrow> py_error + (outcome \<times> GameState \<times> stdin \<times> stdout)" where
  "play_loop g ins =
     (case take_turn g ins of
        Inl e \<Rightarrow> Inl e
      | Inr (g', rest, out) \<Rightarrow>
          (case after_move g' of
             Inl e \<Rightarrow> Inl e
           | Inr (Finished oc, out') \<Rightarrow>
               Inr (oc, g', rest, print (format_board (board g)) # out @ out')
           | Inr (Continue g'', out') \<Rightarrow>
               (case play_loop g'' rest of
                  Inl e \<Rightarrow> Inl e
                | Inr (oc, gf, rest', out'') \<Rightarrow>
                    Inr (oc, gf, rest', print (format_board (board g)) # out @ out' @ out''))))"
  by pat_completeness auto
termination
proof -
  have shorter: "length r < length i" if "take_turn s i = Inr (s', r, w)" for s i s' r w
    using that
  proof (induction i arbitrary: s s' r w)
    case Nil
    then show ?case by simp
  next
    case (Cons choice i)
    then show ?case
      by (fastforce split: sum.splits prod.splits attempt.splits)
  qed
  show ?thesis
    by (relation "measure (\<lambda>(g, ins). length ins)") (auto dest: shorter)
qed

declare play_loop.simps [simp del]

definition play_game :: "stdin \<Rightarrow> py_error + (outcome \<times> GameState \<times> stdin \<times> stdout)" where
  "play_game ins =
     (case play_loop create_game ins of
        Inl e \<Rightarrow> Inl e
      | Inr (oc, g, rest, out) \<Rightarrow> Inr (oc, g, rest, print msg_welcome # out))"

subsection \<open>States the loop of play\_game passes through\<close>

text \<open>
  The loop of \<open>play_game\<close> holds the game at two places: where it prompts (the head of
  the loop, first with the game of \<open>create_game\<close>) and after \<open>take_turn\<close> put a move
  on the board. From the second place the loop either ends or switches the player and
  prompts again.
\<close>

datatype phase = AtPrompt | Moved

inductive reachable :: "phase \<Rightarrow> GameState \<Rightarrow> bool" where
  start: "reachable AtPrompt create_game"
| move: "reachable AtPrompt g \<Longrightarrow> take_turn g ins = Inr (g', rest, out) \<Longrightarrow> reachable Moved g'"
| next_player:
    "reachable Moved g \<Longrightarrow> after_move g = Inr (Continue g', out) \<Longrightarrow> reachable AtPrompt g'"

subsection \<open>Notions of the specification\<close>

text \<open>
  A combination is complete on a board when its first cell is not empty and its three
  cells are equal.
\<close>

definition complete :: "string list \<Rightarrow> nat \<times> nat \<times> nat \<Rightarrow> bool" where
  "complete brd l =
     (case l of (a, b, c) \<Rightarrow> brd ! a \<noteq> empty_cell \<and> brd ! a = brd ! b \<and> brd ! b = brd ! c)"

text \<open>Rows and columns of the grid, where cell \<open>(row, col)\<close> has index \<open>3 * row + col\<close>.\<close>

definition row_line :: "nat \<Rightarrow> nat \<times> nat \<times> nat" where
  "row_line r = (3 * r, 3 * r + 1, 3 * r + 2)"

definition column_line :: "nat \<Rightarrow> nat \<times> nat \<times> nat" where
  "column_line c = (c, 3 + c, 6 + c)"

definition in_range :: "nat \<Rightarrow> nat \<times> nat \<times> nat \<Rightarrow> bool" where
  "in_range n l = (case l of (a, b, c) \<Rightarrow> a < n \<and> b < n \<and> c < n)"

text \<open>The number of cells of a game that hold a given mark, and the three legal cells.\<close>

definition marks :: "string \<Rightarrow> GameState \<Rightarrow> nat" where
  "marks m g = count_list (board g) m"

definition valid_cell :: "string \<Rightarrow> bool" where
  "valid_cell c = (c = '' '' \<or> c = ''X'' \<or> c = ''O'')"

subsection \<open>Example boards and games\<close>

definition top_row_X :: "string list" where
  "top_row_X = [''X'', ''X'', ''X'', '' '', ''O'', '' '', '' '', ''O'', '' '']"

definition full_no_line :: "string list" where
  "full_no_line = [''X'', ''O'', ''X'', ''X'', ''O'', ''O'', ''O'', ''X'', ''X'']"

definition x_at_0 :: GameState where
  "x_at_0 = \<lparr>board = [''X'', '' '', '' '', '' '', '' '', '' '', '' '', '' '', '' ''],
             current_player = ''O''\<rparr>"

definition before_win :: GameState where
  "before_win = \<lparr>board = [''X'', ''X'', '' '', '' '', ''O'', '' '', '' '', ''O'', '' ''],
                 current_player = ''X''\<rparr>"

definition after_win :: GameState where
  "after_win = \<lparr>board = [''X'', ''X'', ''X'', '' '', ''O'', '' '', '' '', ''O'', '' ''],
                current_player = ''X''\<rparr>"

definition player_Z :: GameState where
  "player_Z = \<lparr>board = replicate 9 empty_cell, current_player = ''Z''\<rparr>"

section \<open>Properties\<close>

subsection \<open>create\_game\<close>

text \<open>
  Claim C4. \<open>create_game\<close> returns a game whose board has exactly 9 cells, all of them
  empty, and whose current player is X.
\<close>

theorem create_game_fresh:
  "board create_game = ['' '', '' '', '' '', '' '', '' '', '' '', '' '', '' '', '' '']
   \<and> length (board create_game) = 9
   \<and> list_all (\<lambda>c. c = empty_cell) (board create_game)
   \<and> current_player create_game = ''X''"
  by (simp add: create_game_def empty_cell_def eval_nat_numeral)

subsection \<open>switch\_player\<close>

text \<open>
  Claim C6. When the current player is X or O, \<open>switch_player\<close> makes the other of the
  two the current player, leaves the board alone, and applied twice gives back the game
  it started from.
\<close>

theorem switch_player_involution:
  assumes "current_player g = ''X'' \<or> current_player g = ''O''"
  shows "current_player (switch_player g) \<noteq> current_player g
         \<and> (current_player (switch_player g) = ''X'' \<or> current_player (switch_player g) = ''O'')
         \<and> board (switch_player g) = board g
         \<and> switch_player (switch_player g) = g"
  using assms by (cases g) (auto simp: switch_player_def)

theorem switch_player_involution_witness:
  "current_player create_game = ''X''
   \<and> current_player (switch_player create_game) = ''O''
   \<and> board (switch_player create_game) = board create_game
   \<and> switch_player (switch_player create_game) = create_game"
proof -
  have x: "current_player create_game = ''X''" by (simp add: create_game_def)
  then have "current_player create_game = ''X'' \<or> current_player create_game = ''O''" ..
  from switch_player_involution [OF this] x show ?thesis by auto
qed

text \<open>
  Claim C10. \<open>switch_player\<close> sends every current player other than the string X to X,
  so two applications from such a player end at O; two applications give back the game
  exactly when the current player was X or O.
\<close>

theorem switch_player_other_values:
  "(switch_player (switch_player g) = g \<longleftrightarrow> current_player g = ''X'' \<or> current_player g = ''O'')
   \<and> (current_player g \<noteq> ''X'' \<longrightarrow>
        current_player (switch_player g) = ''X''
        \<and> current_player (switch_player (switch_player g)) = ''O'')"
  by (cases g) (auto simp: switch_player_def)

theorem switch_player_other_values_witness:
  "current_player player_Z = ''Z''
   \<and> current_player (switch_player player_Z) = ''X''
   \<and> current_player (switch_player (switch_player player_Z)) = ''O''
   \<and> switch_player (switch_player player_Z) \<noteq> player_Z"
proof -
  have z: "current_player player_Z = ''Z''" by (simp add: player_Z_def)
  then have "current_player player_Z \<noteq> ''X''" and "current_player player_Z \<noteq> ''O''"
    by simp_all
  with switch_player_other_values [of player_Z] z show ?thesis by blast
qed

subsection \<open>format\_board\<close>

text \<open>
  Claim C7. On a board of 9 cells \<open>format_board\<close> gives three rows, each the three cells
  of that row of the board joined by \<open>" | "\<close>, with one fixed line of nine dashes between
  two rows. The result depends on the board alone.
\<close>

theorem format_board_grid:
  "format_board [c0, c1, c2, c3, c4, c5, c6, c7, c8] =
     c0 @ '' | '' @ c1 @ '' | '' @ c2 @ [CHR 0x0A] @ ''---------'' @ [CHR 0x0A]
     @ c3 @ '' | '' @ c4 @ '' | '' @ c5 @ [CHR 0x0A] @ ''---------'' @ [CHR 0x0A]
     @ c6 @ '' | '' @ c7 @ '' | '' @ c8"
  by (simp add: format_board_def board_rows_def separator_def newline_def)

subsection \<open>winner\<close>

lemma line_test_in_range:
  "in_range (length brd) l \<Longrightarrow> line_test brd l = Inr (complete brd l)"
  by (cases l) (simp add: in_range_def line_test_def cell_def complete_def)

lemma winner_scan_find:
  "list_all (in_range (length brd)) ls \<Longrightarrow>
   winner_scan brd ls = Inr (map_option (\<lambda>l. brd ! fst l) (find (complete brd) ls))"
proof (induction ls)
  case Nil
  then show ?case by simp
next
  case (Cons l ls)
  then have r: "in_range (length brd) l" by simp
  then have "fst l < length brd" by (cases l) (simp add: in_range_def)
  with Cons r show ?case
    by (simp add: line_test_in_range cell_def)
qed

lemma combinations_in_range: "list_all (in_range 9) WINNING_COMBINATIONS"
  by (simp add: WINNING_COMBINATIONS_def in_range_def)

lemma winner_find:
  "length brd = 9 \<Longrightarrow>
   winner brd = Inr (map_option (\<lambda>l. brd ! fst l) (find (complete brd) WINNING_COMBINATIONS))"
  unfolding winner_def using combinations_in_range by (simp add: winner_scan_find)

text \<open>
  Claim C1. On a board of 9 cells \<open>winner\<close> always returns, and it returns None exactly
  when no winning combination is complete. It returns the mark \<open>m\<close> exactly when the
  first complete combination, in the order of the list, holds \<open>m\<close>; the list has the
  three rows first, then the three columns, then the two diagonals.
\<close>

theorem winner_first_complete_line:
  assumes "length brd = 9"
  shows "(winner brd = Inr None \<longleftrightarrow> (\<forall>l \<in> set WINNING_COMBINATIONS. \<not> complete brd l))
       \<and> (winner brd = Inr (Some m) \<longleftrightarrow>
            (\<exists>i < length WINNING_COMBINATIONS.
               complete brd (WINNING_COMBINATIONS ! i)
               \<and> brd ! fst (WINNING_COMBINATIONS ! i) = m
               \<and> (\<forall>j < i. \<not> complete brd (WINNING_COMBINATIONS ! j))))
       \<and> (winner brd = Inr None \<or> (\<exists>m. winner brd = Inr (Some m)))
       \<and> WINNING_COMBINATIONS =
            map row_line [0, 1, 2] @ map column_line [0, 1, 2] @ [(0, 4, 8), (2, 4, 6)]"
proof -
  let ?f = "find (complete brd) WINNING_COMBINATIONS"
  have w: "winner brd = Inr (map_option (\<lambda>l. brd ! fst l) ?f)"
    using assms by (rule winner_find)
  have a: "winner brd = Inr None \<longleftrightarrow> (\<forall>l \<in> set WINNING_COMBINATIONS. \<not> complete brd l)"
    by (auto simp: w find_None_iff)
  have b: "winner brd = Inr (Some m) \<longleftrightarrow>
            (\<exists>i < length WINNING_COMBINATIONS.
               complete brd (WINNING_COMBINATIONS ! i)
               \<and> brd ! fst (WINNING_COMBINATIONS ! i) = m
               \<and> (\<forall>j < i. \<not> complete brd (WINNING_COMBINATIONS ! j)))"
  proof -
    have "winner brd = Inr (Some m) \<longleftrightarrow> (\<exists>l. ?f = Some l \<and> brd ! fst l = m)"
      by (cases ?f) (simp_all add: w)
    also have "\<dots> \<longleftrightarrow>
            (\<exists>i < length WINNING_COMBINATIONS.
               complete brd (WINNING_COMBINATIONS ! i)
               \<and> brd ! fst (WINNING_COMBINATIONS ! i) = m
               \<and> (\<forall>j < i. \<not> complete brd (WINNING_COMBINATIONS ! j)))"
      unfolding find_Some_iff by blast
    finally show ?thesis .
  qed
  have c: "winner brd = Inr None \<or> (\<exists>m. winner brd = Inr (Some m))"
    by (cases ?f) (simp_all add: w)
  have d: "WINNING_COMBINATIONS =
            map row_line [0, 1, 2] @ map column_line [0, 1, 2] @ [(0, 4, 8), (2, 4, 6)]"
    by (simp add: WINNING_COMBINATIONS_def row_line_def column_line_def)
  from a b c d show ?thesis by blast
qed

theorem winner_first_complete_line_witness:
  "length top_row_X = 9 \<and> winner top_row_X = Inr (Some ''X'')
   \<and> complete top_row_X (WINNING_COMBINATIONS ! 0)"
proof -
  have l: "length top_row_X = 9" by (simp add: top_row_X_def)
  have c: "complete top_row_X (WINNING_COMBINATIONS ! 0)"
    by (simp add: top_row_X_def WINNING_COMBINATIONS_def complete_def empty_cell_def)
  have x: "top_row_X ! fst (WINNING_COMBINATIONS ! 0) = ''X''"
    by (simp add: top_row_X_def WINNING_COMBINATIONS_def)
  have "0 < length WINNING_COMBINATIONS" by (simp add: WINNING_COMBINATIONS_def)
  with c x have "\<exists>i < length WINNING_COMBINATIONS.
               complete top_row_X (WINNING_COMBINATIONS ! i)
               \<and> top_row_X ! fst (WINNING_COMBINATIONS ! i) = ''X''
               \<and> (\<forall>j < i. \<not> complete top_row_X (WINNING_COMBINATIONS ! j))"
    by (intro exI [of _ 0]) simp
  with winner_first_complete_line [OF l, of "''X''"] have "winner top_row_X = Inr (Some ''X'')"
    by blast
  with l c show ?thesis by simp
qed

subsection \<open>is\_draw\<close>

lemma is_draw_nth: "is_draw brd \<longleftrightarrow> (\<forall>i < length brd. brd ! i \<noteq> empty_cell)"
  by (simp add: is_draw_def list_all_length)

text \<open>
  Claim C5. On a board of 9 cells \<open>is_draw\<close> holds exactly when none of the nine cells
  is empty; in particular this is so on the boards where \<open>winner\<close> returns None.
\<close>

theorem is_draw_iff_full:
  assumes "length brd = 9"
  shows "(is_draw brd \<longleftrightarrow> (\<forall>i < 9. brd ! i \<noteq> empty_cell))
       \<and> (winner brd = Inr None \<longrightarrow> (is_draw brd \<longleftrightarrow> (\<forall>i < 9. brd ! i \<noteq> empty_cell)))"
  using assms by (simp add: is_draw_nth)

theorem is_draw_iff_full_witness:
  "length full_no_line = 9 \<and> winner full_no_line = Inr None \<and> is_draw full_no_line
   \<and> full_no_line ! 8 \<noteq> empty_cell"
proof -
  have l: "length full_no_line = 9" by (simp add: full_no_line_def)
  have w: "winner full_no_line = Inr None"
    by (simp add: full_no_line_def winner_def WINNING_COMBINATIONS_def line_test_def cell_def
        empty_cell_def)
  have d: "is_draw full_no_line"
    by (simp add: full_no_line_def is_draw_def empty_cell_def)
  from is_draw_iff_full [OF l] w d have "\<forall>i < 9. full_no_line ! i \<noteq> empty_cell" by blast
  then have "full_no_line ! 8 \<noteq> empty_cell" by simp
  with l w d show ?thesis by blast
qed

subsection \<open>take\_turn: rejected moves\<close>

text \<open>
  Claim C2. On a board of 9 cells the pass fails with InvalidPosition exactly when the
  0-based position is below 0 or above 8, and with CellOccupied exactly when the
  position is from 0 to 8 and its cell is not empty. A pass that fails leaves the game
  as it was, board and current player, and \<open>take_turn\<close> goes on with the rest of the
  input on that same game, so the next prompt names the same player.
\<close>

theorem apply_move_rejections:
  assumes "length (board g) = 9"
  shows "((\<exists>g' out. apply_move g p = Inr (Rejected InvalidPosition, g', out)) \<longleftrightarrow> p < 0 \<or> 8 < p)
       \<and> ((\<exists>g' out. apply_move g p = Inr (Rejected CellOccupied, g', out)) \<longleftrightarrow>
            0 \<le> p \<and> p \<le> 8 \<and> board g ! nat p \<noteq> empty_cell)
       \<and> (\<forall>r g' out. apply_move g p = Inr (Rejected r, g', out) \<longrightarrow>
            g' = g
            \<and> take_turn g (Some (p + 1) # rest) =
                (case take_turn g rest of
                   Inl e \<Rightarrow> Inl e
                 | Inr (g'', rest', out') \<Rightarrow> Inr (g'', rest', prompt g # out @ out')))"
proof -
  have inv: "(\<exists>g' out. apply_move g p = Inr (Rejected InvalidPosition, g', out)) \<longleftrightarrow> p < 0 \<or> 8 < p"
    using assms by (auto simp: apply_move_def cell_def)
  have occ: "(\<exists>g' out. apply_move g p = Inr (Rejected CellOccupied, g', out)) \<longleftrightarrow>
            0 \<le> p \<and> p \<le> 8 \<and> board g ! nat p \<noteq> empty_cell"
    using assms by (auto simp: apply_move_def cell_def)
  have same: "g' = g" if "apply_move g p = Inr (Rejected r, g', out)" for r g' out
    using that by (auto simp: apply_move_def split: if_splits sum.splits)
  have again: "take_turn g (Some (p + 1) # rest) =
                (case take_turn g rest of
                   Inl e \<Rightarrow> Inl e
                 | Inr (g'', rest', out') \<Rightarrow> Inr (g'', rest', prompt g # out @ out'))"
    if r: "apply_move g p = Inr (Rejected r, g', out)" for r g' out
  proof -
    from r have "g' = g" by (rule same)
    with r show ?thesis by (simp add: take_turn_pass_def)
  qed
  from inv occ same again show ?thesis by blast
qed

theorem apply_move_rejections_witness:
  "apply_move x_at_0 0 = Inr (Rejected CellOccupied, x_at_0, [print msg_taken])
   \<and> apply_move x_at_0 9 = Inr (Rejected InvalidPosition, x_at_0, [print msg_range])
   \<and> take_turn x_at_0 [Some 1, Some 10, Some 5] =
       Inr (x_at_0\<lparr>board := (board x_at_0)[4 := ''O'']\<rparr>, [],
            [prompt x_at_0, print msg_taken, prompt x_at_0, print msg_range, prompt x_at_0])"
proof -
  have l: "length (board x_at_0) = 9" by (simp add: x_at_0_def)
  have a: "apply_move x_at_0 0 = Inr (Rejected CellOccupied, x_at_0, [print msg_taken])"
    by (simp add: apply_move_def x_at_0_def cell_def empty_cell_def)
  have b: "apply_move x_at_0 9 = Inr (Rejected InvalidPosition, x_at_0, [print msg_range])"
    by (simp add: apply_move_def)
  have c: "take_turn x_at_0 [Some 5] =
       Inr (x_at_0\<lparr>board := (board x_at_0)[4 := ''O'']\<rparr>, [], [prompt x_at_0])"
    by (simp add: take_turn_pass_def apply_move_def x_at_0_def cell_def empty_cell_def)
  from apply_move_rejections [OF l, of 9 "[Some 5]"] b c
  have d: "take_turn x_at_0 [Some 10, Some 5] =
       Inr (x_at_0\<lparr>board := (board x_at_0)[4 := ''O'']\<rparr>, [],
            [prompt x_at_0, print msg_range, prompt x_at_0])"
    by simp
  from apply_move_rejections [OF l, of 0 "[Some 10, Some 5]"] a d
  have "take_turn x_at_0 [Some 1, Some 10, Some 5] =
       Inr (x_at_0\<lparr>board := (board x_at_0)[4 := ''O'']\<rparr>, [],
            [prompt x_at_0, print msg_taken, prompt x_at_0, print msg_range, prompt x_at_0])"
    by simp
  with a b show ?thesis by simp
qed

subsection \<open>take\_turn: the accepted move\<close>

text \<open>
  Claim C3. For a position from 0 to 8 whose cell is empty, on a board of 9 cells, the
  pass succeeds and \<open>take_turn\<close> returns at once: the cell at the position holds the
  mark of the current player, every other cell is as before, the board still has 9 cells
  and the current player is not switched.
\<close>

theorem apply_move_sets_cell:
  assumes "0 \<le> p" and "p \<le> 8" and "length (board g) = 9"
    and "board g ! nat p = empty_cell"
  shows "\<exists>g'. apply_move g p = Inr (Applied, g', [])
           \<and> take_turn g (Some (p + 1) # rest) = Inr (g', rest, [prompt g])
           \<and> length (board g') = 9
           \<and> board g' ! nat p = current_player g
           \<and> (\<forall>i < 9. i \<noteq> nat p \<longrightarrow> board g' ! i = board g ! i)
           \<and> current_player g' = current_player g"
  using assms by (simp add: apply_move_def take_turn_pass_def cell_def)

theorem apply_move_sets_cell_witness:
  "length (board x_at_0) = 9 \<and> board x_at_0 ! nat 4 = empty_cell
   \<and> (\<exists>g'. apply_move x_at_0 4 = Inr (Applied, g', [])
          \<and> take_turn x_at_0 [Some 5, Some 6] = Inr (g', [Some 6], [prompt x_at_0])
          \<and> board g' ! 4 = ''O'' \<and> board g' ! 0 = ''X'' \<and> board g' ! 8 = '' ''
          \<and> current_player g' = ''O'')"
proof -
  have l: "length (board x_at_0) = 9" by (simp add: x_at_0_def)
  have e: "board x_at_0 ! nat 4 = empty_cell" by (simp add: x_at_0_def empty_cell_def)
  have "(0::int) \<le> 4" and "(4::int) \<le> 8" by simp_all
  from apply_move_sets_cell [OF this l e, of "[Some 6]"] obtain g' where
    a: "apply_move x_at_0 4 = Inr (Applied, g', [])"
    and t: "take_turn x_at_0 (Some (4 + 1) # [Some 6]) = Inr (g', [Some 6], [prompt x_at_0])"
    and p: "board g' ! nat 4 = current_player x_at_0"
    and f: "\<forall>i < 9. i \<noteq> nat 4 \<longrightarrow> board g' ! i = board x_at_0 ! i"
    and c: "current_player g' = current_player x_at_0"
    by blast
  from f have "board g' ! 0 = board x_at_0 ! 0" and "board g' ! 8 = board x_at_0 ! 8"
    by simp_all
  with p c have "board g' ! 4 = ''O''" and "board g' ! 0 = ''X''" and "board g' ! 8 = '' ''"
    and "current_player g' = ''O''"
    by (simp_all add: x_at_0_def)
  with l e a t show ?thesis by auto
qed

subsection \<open>The states of a session\<close>

text \<open>
  What \<open>take_turn\<close> does to the game when it returns: one empty cell took the mark of
  the current player.
\<close>

lemma apply_move_cases:
  assumes "apply_move g p = Inr (a, g', out)"
  shows "(\<exists>r. a = Rejected r \<and> g' = g)
       \<or> (a = Applied \<and> (\<exists>n < length (board g). board g ! n = empty_cell
              \<and> g' = g\<lparr>board := (board g)[n := current_player g]\<rparr>))"
  using assms
  by (auto simp: apply_move_def cell_def split: if_splits)

lemma take_turn_pass_cases:
  assumes "take_turn_pass g choice = Inr (a, g', out)"
  shows "(\<exists>r. a = Rejected r \<and> g' = g)
       \<or> (a = Applied \<and> (\<exists>n < length (board g). board g ! n = empty_cell
              \<and> g' = g\<lparr>board := (board g)[n := current_player g]\<rparr>))"
proof (cases choice)
  case None
  with assms show ?thesis by (auto simp: take_turn_pass_def)
next
  case (Some n)
  with assms have "apply_move g (n - 1) = Inr (a, g', out)" by (simp add: take_turn_pass_def)
  then show ?thesis by (rule apply_move_cases)
qed

lemma take_turn_effect:
  "take_turn g ins = Inr (g', rest, out) \<Longrightarrow>
   \<exists>n < length (board g). board g ! n = empty_cell
      \<and> g' = g\<lparr>board := (board g)[n := current_player g]\<rparr>"
proof (induction ins arbitrary: g' rest out)
  case Nil
  then show ?case by simp
next
  case (Cons choice ins)
  show ?case
  proof (cases "take_turn_pass g choice")
    case (Inl e)
    with Cons.prems show ?thesis by simp
  next
    case (Inr t)
    obtain a g1 out1 where t: "t = (a, g1, out1)" by (cases t)
    from take_turn_pass_cases [of g choice a g1 out1] Inr t
    consider (rej) r where "a = Rejected r" "g1 = g"
      | (app) "a = Applied" "\<exists>n < length (board g). board g ! n = empty_cell
              \<and> g1 = g\<lparr>board := (board g)[n := current_player g]\<rparr>"
      by blast
    then show ?thesis
    proof cases
      case rej
      with Cons.prems Inr t obtain g2 rest2 out2 where "take_turn g ins = Inr (g2, rest2, out2)"
        and "g' = g2"
        by (auto split: sum.splits)
      with Cons.IH show ?thesis by blast
    next
      case app
      with Cons.prems Inr t have "g' = g1" by simp
      with app show ?thesis by simp
    qed
  qed
qed

lemma count_list_update:
  "i < length xs \<Longrightarrow> xs ! i \<noteq> a \<Longrightarrow>
   count_list (xs[i := v]) a = count_list xs a + (if v = a then 1 else 0)"
proof (induction xs arbitrary: i)
  case Nil
  then show ?case by simp
next
  case (Cons x xs)
  then show ?case by (cases i) auto
qed

lemma after_move_continue:
  "after_move g = Inr (Continue g', out) \<Longrightarrow> g' = switch_player g"
  by (auto simp: after_move_def split: sum.splits option.splits if_splits)

lemma reachable_inv:
  "reachable ph g \<Longrightarrow>
   length (board g) = 9 \<and> list_all valid_cell (board g)
   \<and> (current_player g = ''X'' \<or> current_player g = ''O'')
   \<and> marks ''X'' g = marks ''O'' g + (if (ph = AtPrompt) = (current_player g = ''X'') then 0 else 1)"
proof (induction rule: reachable.induct)
  case start
  show ?case
    by (simp add: create_game_def empty_cell_def marks_def valid_cell_def eval_nat_numeral)
next
  case (move g ins g' rest out)
  from take_turn_effect [OF move.hyps(2)] obtain n where n: "n < length (board g)"
    and e: "board g ! n = empty_cell"
    and g': "g' = g\<lparr>board := (board g)[n := current_player g]\<rparr>"
    by blast
  from e have ne: "board g ! n \<noteq> ''X''" "board g ! n \<noteq> ''O''" by (simp_all add: empty_cell_def)
  have v: "valid_cell (current_player g)" using move.IH by (auto simp: valid_cell_def)
  have "list_all valid_cell ((board g)[n := current_player g])"
    using move.IH v n by (auto simp: list_all_length nth_list_update)
  with move.IH n ne g' show ?case
    by (auto simp: marks_def count_list_update)
next
  case (next_player g g' out)
  from after_move_continue [OF next_player.hyps(2)] have "g' = switch_player g" .
  with next_player.IH show ?case
    by (auto simp: switch_player_def marks_def)
qed

text \<open>The game before the fifth move of the session 1, 5, 2, 8, 3 is reachable.\<close>

lemmas eval_defs = take_turn_pass_def apply_move_def cell_def empty_cell_def after_move_def
  winner_def WINNING_COMBINATIONS_def line_test_def is_draw_def switch_player_def

lemma reachable_round:
  assumes "reachable AtPrompt g" and "take_turn g [c] = Inr (g', [], out)"
    and "after_move g' = Inr (Continue g'', out')"
  shows "reachable AtPrompt g''"
proof -
  from assms(1,2) have "reachable Moved g'" by (rule reachable.move)
  from this assms(3) show ?thesis by (rule reachable.next_player)
qed

lemma reachable_before_win: "reachable AtPrompt before_win"
proof -
  let ?s0 = "\<lparr>board = ['' '', '' '', '' '', '' '', '' '', '' '', '' '', '' '', '' ''],
              current_player = ''X''\<rparr>"
  let ?m1 = "\<lparr>board = [''X'', '' '', '' '', '' '', '' '', '' '', '' '', '' '', '' ''],
              current_player = ''X''\<rparr>"
  let ?s1 = "\<lparr>board = [''X'', '' '', '' '', '' '', '' '', '' '', '' '', '' '', '' ''],
              current_player = ''O''\<rparr>"
  let ?m2 = "\<lparr>board = [''X'', '' '', '' '', '' '', ''O'', '' '', '' '', '' '', '' ''],
              current_player = ''O''\<rparr>"
  let ?s2 = "\<lparr>board = [''X'', '' '', '' '', '' '', ''O'', '' '', '' '', '' '', '' ''],
              current_player = ''X''\<rparr>"
  let ?m3 = "\<lparr>board = [''X'', ''X'', '' '', '' '', ''O'', '' '', '' '', '' '', '' ''],
              current_player = ''X''\<rparr>"
  let ?s3 = "\<lparr>board = [''X'', ''X'', '' '', '' '', ''O'', '' '', '' '', '' '', '' ''],
              current_player = ''O''\<rparr>"
  let ?m4 = "\<lparr>board = [''X'', ''X'', '' '', '' '', ''O'', '' '', '' '', ''O'', '' ''],
              current_player = ''O''\<rparr>"
  have "create_game = ?s0" by (simp add: create_game_def empty_cell_def eval_nat_numeral)
  with reachable.start have r0: "reachable AtPrompt ?s0" by simp
  have t1: "take_turn ?s0 [Some 1] = Inr (?m1, [], [prompt ?s0])" by (simp add: eval_defs)
  have a1: "after_move ?m1 = Inr (Continue ?s1, [])" by (simp add: eval_defs)
  have r1: "reachable AtPrompt ?s1" using r0 t1 a1 by (rule reachable_round)
  have t2: "take_turn ?s1 [Some 5] = Inr (?m2, [], [prompt ?s1])" by (simp add: eval_defs)
  have a2: "after_move ?m2 = Inr (Continue ?s2, [])" by (simp add: eval_defs)
  have r2: "reachable AtPrompt ?s2" using r1 t2 a2 by (rule reachable_round)
  have t3: "take_turn ?s2 [Some 2] = Inr (?m3, [], [prompt ?s2])" by (simp add: eval_defs)
  have a3: "after_move ?m3 = Inr (Continue ?s3, [])" by (simp add: eval_defs)
  have r3: "reachable AtPrompt ?s3" using r2 t3 a3 by (rule reachable_round)
  have t4: "take_turn ?s3 [Some 8] = Inr (?m4, [], [prompt ?s3])" by (simp add: eval_defs)
  have a4: "after_move ?m4 = Inr (Continue before_win, [])"
    by (simp add: eval_defs before_win_def)
  show ?thesis using r3 t4 a4 by (rule reachable_round)
qed

text \<open>
  Claim C9. In every state the loop of \<open>play_game\<close> reaches from \<open>create_game\<close>, at the
  prompt or after a move, the board has 9 cells, each of them empty, X or O, the current
  player is X or O, and the number of X marks minus the number of O marks is 0 or 1.
\<close>

theorem reachable_invariant:
  assumes "reachable ph g"
  shows "length (board g) = 9
       \<and> list_all valid_cell (board g)
       \<and> (current_player g = ''X'' \<or> current_player g = ''O'')
       \<and> (int (marks ''X'' g) - int (marks ''O'' g) = 0
          \<or> int (marks ''X'' g) - int (marks ''O'' g) = 1)"
  using reachable_inv [OF assms] by (auto split: if_splits)

theorem reachable_invariant_witness:
  "reachable AtPrompt before_win
   \<and> length (board before_win) = 9
   \<and> marks ''X'' before_win = 2 \<and> marks ''O'' before_win = 2
   \<and> int (marks ''X'' before_win) - int (marks ''O'' before_win) = 0"
proof -
  have m: "marks ''X'' before_win = 2" "marks ''O'' before_win = 2"
    by (simp_all add: marks_def before_win_def)
  from reachable_invariant [OF reachable_before_win]
  have "length (board before_win) = 9" by blast
  with m reachable_before_win show ?thesis by simp
qed

subsection \<open>The end of a session\<close>

text \<open>
  Input that comes after the accepted move does not change what \<open>take_turn\<close> returns; it
  is handed back unread.
\<close>

lemma take_turn_append:
  "take_turn g ins = Inr (g', rest, out) \<Longrightarrow>
   take_turn g (ins @ extra) = Inr (g', rest @ extra, out)"
proof (induction ins arbitrary: g' rest out)
  case Nil
  then show ?case by simp
next
  case (Cons choice ins)
  show ?case
  proof (cases "take_turn_pass g choice")
    case (Inl e)
    with Cons.prems show ?thesis by simp
  next
    case (Inr t)
    obtain a g1 out1 where t: "t = (a, g1, out1)" by (cases t)
    show ?thesis
    proof (cases a)
      case Applied
      with Cons.prems Inr t show ?thesis by simp
    next
      case (Rejected r)
      from take_turn_pass_cases [of g choice a g1 out1] Inr t Rejected have g1: "g1 = g"
        by simp
      show ?thesis
      proof (cases "take_turn g ins")
        case (Inl e)
        with Cons.prems Inr t Rejected g1 show ?thesis by simp
      next
        case inner: (Inr u)
        obtain g2 rest2 out2 where u: "u = (g2, rest2, out2)" by (cases u)
        from Cons.IH [of g2 rest2 out2] inner u
        have "take_turn g (ins @ extra) = Inr (g2, rest2 @ extra, out2)" by simp
        with Cons.prems Inr t Rejected g1 inner u show ?thesis by simp
      qed
    qed
  qed
qed

lemma play_loop_stops:
  assumes "take_turn g ins = Inr (g', rest, out)"
    and "after_move g' = Inr (Finished oc, out')"
  shows "play_loop g (ins @ extra) =
           Inr (oc, g', rest @ extra, print (format_board (board g)) # out @ out')"
proof -
  from take_turn_append [OF assms(1)]
  have "take_turn g (ins @ extra) = Inr (g', rest @ extra, out)" .
  with assms(2) show ?thesis
    by (subst play_loop.simps) simp
qed

lemma winner_scan_Some:
  "winner_scan brd ls = Inr (Some w) \<Longrightarrow> w \<in> set brd \<and> w \<noteq> empty_cell"
proof (induction ls)
  case Nil
  then show ?case by simp
next
  case (Cons l ls)
  obtain a b c where l: "l = (a, b, c)" by (cases l)
  show ?case
  proof (cases "line_test brd l")
    case (Inl e)
    with Cons.prems show ?thesis by simp
  next
    case (Inr t)
    show ?thesis
    proof (cases t)
      case True
      with Inr l have "a < length brd \<and> brd ! a \<noteq> empty_cell"
        by (auto simp: line_test_def cell_def split: if_splits)
      moreover from Cons.prems Inr True l have "cell brd a = Inr w"
        by (simp split: sum.splits)
      ultimately show ?thesis by (auto simp: cell_def)
    next
      case False
      with Cons Inr show ?thesis by simp
    qed
  qed
qed

lemma winner_Some_valid:
  assumes "winner brd = Inr (Some w)" and "list_all valid_cell brd"
  shows "w = ''X'' \<or> w = ''O''"
proof -
  from assms(1) have "w \<in> set brd" and "w \<noteq> empty_cell"
    using winner_scan_Some [of brd WINNING_COMBINATIONS w] by (simp_all add: winner_def)
  with assms(2) show ?thesis
    by (auto simp: list_all_iff valid_cell_def empty_cell_def)
qed

text \<open>
  Claim C8. Take a pass of the loop of \<open>play_game\<close> from a reachable game: once
  \<open>take_turn\<close> put the move on the board and \<open>winner\<close> finds a complete combination, or
  finds none on a full board, the session ends there, won by that mark or drawn (a full
  board with a complete combination is won). The game returned is the one right after
  that move, and all input behind the move is handed back unread, whatever it holds: no
  further move is applied.
\<close>

theorem terminal_states_end_session:
  assumes "reachable AtPrompt g"
    and "take_turn g ins = Inr (g', rest, out)"
    and "winner (board g') = Inr win"
    and "win \<noteq> None \<or> is_draw (board g')"
  shows "\<exists>out'. \<forall>extra.
           play_loop g (ins @ extra) =
             Inr (case win of Some w \<Rightarrow> Won w | None \<Rightarrow> Draw, g', rest @ extra, out')"
proof (cases win)
  case None
  with assms(3,4) have "after_move g' =
      Inr (Finished Draw, [print (format_board (board g')), print msg_draw])"
    by (simp add: after_move_def)
  from play_loop_stops [OF assms(2) this] None show ?thesis by auto
next
  case (Some w)
  from assms(1,2) have "reachable Moved g'" by (rule reachable.move)
  then have "list_all valid_cell (board g')" using reachable_inv by blast
  with assms(3) Some have "w \<noteq> []" using winner_Some_valid [of "board g'" w] by auto
  with assms(3) Some have "after_move g' =
      Inr (Finished (Won w), [print (format_board (board g')), print (msg_wins w)])"
    by (simp add: after_move_def)
  from play_loop_stops [OF assms(2) this] Some show ?thesis by auto
qed

theorem terminal_states_end_session_witness:
  "reachable AtPrompt before_win
   \<and> take_turn before_win [Some 3] = Inr (after_win, [], [prompt before_win])
   \<and> winner (board after_win) = Inr (Some ''X'')
   \<and> (\<exists>out'. \<forall>extra. play_loop before_win ([Some 3] @ extra) =
          Inr (Won ''X'', after_win, [] @ extra, out'))"
proof -
  have t: "take_turn before_win [Some 3] = Inr (after_win, [], [prompt before_win])"
    by (simp add: before_win_def after_win_def eval_defs)
  have w: "winner (board after_win) = Inr (Some ''X'')"
    by (simp add: after_win_def eval_defs)
  have "Some ''X'' \<noteq> None \<or> is_draw (board after_win)" by simp
  from terminal_states_end_session [OF reachable_before_win t w this]
  have "\<exists>out'. \<forall>extra. play_loop before_win ([Some 3] @ extra) =
          Inr (Won ''X'', after_win, [] @ extra, out')"
    by simp
  with reachable_before_win t w show ?thesis by blast
qed

text \<open>
  Conversely every session that ends, ends in such a state: the game \<open>play_game\<close>
  returns is reachable and is one on which the pass has decided won or drawn.
\<close>

lemma play_loop_result:
  "play_loop g ins = Inr (oc, gf, rest, out) \<Longrightarrow> reachable AtPrompt g \<Longrightarrow>
   reachable Moved gf \<and> (\<exists>fin. after_move gf = Inr (Finished oc, fin))"
proof (induction g ins arbitrary: out rule: play_loop.induct)
  case (1 g ins)
  note run = "1.prems"(1) and start = "1.prems"(2)
  show ?case
  proof (cases "take_turn g ins")
    case (Inl e)
    with run show ?thesis by (simp add: play_loop.simps)
  next
    case (Inr t)
    obtain g' r1 o1 where t: "t = (g', r1, o1)" by (cases t)
    from start Inr t have moved: "reachable Moved g'" by (auto intro: reachable.move)
    show ?thesis
    proof (cases "after_move g'")
      case (Inl e)
      with run Inr t show ?thesis by (simp add: play_loop.simps)
    next
      case am: (Inr v)
      obtain vd o2 where v: "v = (vd, o2)" by (cases v)
      show ?thesis
      proof (cases vd)
        case (Finished oc')
        with run Inr t am v have "oc' = oc" and "gf = g'" by (simp_all add: play_loop.simps)
        with moved am v Finished show ?thesis by auto
      next
        case (Continue g'')
        from moved am v Continue have next_start: "reachable AtPrompt g''"
          by (auto intro: reachable.next_player)
        from run Inr t am v Continue obtain o3 where
          "play_loop g'' r1 = Inr (oc, gf, rest, o3)"
          by (auto simp: play_loop.simps split: sum.splits)
        from "1.IH" [OF Inr t [symmetric] refl am v [symmetric] Continue this next_start]
        show ?thesis .
      qed
    qed
  qed
qed

lemma play_game_result:
  assumes "play_game ins = Inr (oc, gf, rest, out)"
  shows "reachable Moved gf \<and> (\<exists>fin. after_move gf = Inr (Finished oc, fin))"
proof -
  from assms obtain o1 where "play_loop create_game ins = Inr (oc, gf, rest, o1)"
    by (auto simp: play_game_def split: sum.splits)
  from play_loop_result [OF this reachable.start] show ?thesis .
qed

end
